theory Spec2Isabelle
  imports Main "HOL-Library.Stream"
begin

section \<open>QSF.py: order finding and factor extraction\<close>

text \<open>
  The embedding follows \<^verbatim>\<open>src/QSF.py\<close>. Python integers are unbounded, so every
  number is an \<^typ>\<open>int\<close>; \<^verbatim>\<open>%\<close> and \<^verbatim>\<open>//\<close> round towards minus infinity, as
  \<open>mod\<close> and \<open>div\<close> on \<^typ>\<open>int\<close> do. An exception is the left summand of a result;
  Python's \<^verbatim>\<open>None\<close> is \<^const>\<open>None\<close>.

  The class \<^verbatim>\<open>QuantumGate\<close> and the method \<^verbatim>\<open>apply_error_correction\<close> take no part in a
  factorization attempt and are left out; of the driver \<^verbatim>\<open>run_qsf_factorization\<close> only the
  two objects it constructs are kept.
\<close>

subsection \<open>The world outside the arguments\<close>

datatype error = ValueError

text \<open>
  A printed line, by its format string and the value interpolated into it:
  \<^verbatim>\<open>[QSF] Running quantum circuit with {qubit_count} qubits.\<close>,
  \<^verbatim>\<open>[QSF] Estimated period (r) found: {r}\<close>,
  \<^verbatim>\<open>[QSF] Failed to find a valid period. Adjusting and retrying.\<close>,
  \<^verbatim>\<open>[QSF] Factorization failed. Possibly prime or retry needed.\<close>
\<close>

datatype message =
    Running_circuit int
  | Period_found int
  | Failed_period
  | Factorization_failed

text \<open>An invocation of the order finder or of the factor extractor, with its arguments.\<close>

datatype call =
    Order_finder int int
  | Factor_extractor int int int

text \<open>
  What a method can reach beyond its arguments: the module-level random generator, as
  the stream of the raw draws it will still deliver, and the standard output, as the
  lines printed so far. The field \<open>calls\<close> is a history variable: it lists the
  invocations of the order finder and of the factor extractor so far, each recorded on
  entry to the method; nothing reads it.
\<close>

record world =
  rng :: "nat stream"
  stdout :: "message list"
  calls :: "call list"

definition print :: "message \<Rightarrow> world \<Rightarrow> world" where
  "print m w = w\<lparr>stdout := stdout w @ [m]\<rparr>"

definition enter :: "call \<Rightarrow> world \<Rightarrow> world" where
  "enter c w = w\<lparr>calls := calls w @ [c]\<rparr>"

text \<open>
  \<^verbatim>\<open>random.randint(lo, hi)\<close>: an integer of \<open>[lo, hi]\<close>, taken from the next raw draw;
  \<^verbatim>\<open>ValueError\<close> (empty range) when \<open>hi < lo\<close>, before the generator is touched.
\<close>

definition randint :: "int \<Rightarrow> int \<Rightarrow> world \<Rightarrow> (error + int) \<times> world" where
  "randint lo hi w =
     (if hi < lo then (Inl ValueError, w)
      else (Inr (lo + int (shd (rng w)) mod (hi - lo + 1)), w\<lparr>rng := stl (rng w)\<rparr>))"

subsection \<open>Built-in arithmetic\<close>

text \<open>
  The three-argument \<^verbatim>\<open>pow(a, e, N)\<close> on integers: \<^verbatim>\<open>ValueError\<close> for a zero modulus;
  for \<open>e \<ge> 0\<close> the power reduced modulo \<open>N\<close>, with the sign of \<open>N\<close>; for \<open>e < 0\<close> the
  power of the inverse of \<open>a\<close> modulo \<open>\<bar>N\<bar>\<close>, and \<^verbatim>\<open>ValueError\<close> when \<open>a\<close> has no inverse.
\<close>

definition py_pow :: "int \<Rightarrow> int \<Rightarrow> int \<Rightarrow> error + int" where
  "py_pow a e N =
     (if N = 0 then Inl ValueError
      else if 0 \<le> e then Inr (a ^ nat e mod N)
      else (case find (\<lambda>i. a * i mod \<bar>N\<bar> = 1 mod \<bar>N\<bar>) [0..\<bar>N\<bar> - 1] of
              None \<Rightarrow> Inl ValueError
            | Some i \<Rightarrow> Inr (i ^ nat (- e) mod N)))"

subsection \<open>class qsfQuantumComputer\<close>

record qsfQuantumComputer =
  qubit_count :: int

text \<open>
  \<^verbatim>\<open>for r in range(1, N)\<close>, from the candidate \<open>r\<close> on: the loop of
  \<^verbatim>\<open>simulate_period_finding\<close>.
\<close>

function period_loop :: "int \<Rightarrow> int \<Rightarrow> int \<Rightarrow> world \<Rightarrow> (error + int option) \<times> world" where
  "period_loop a N r w =
     (if r < N then
        (case py_pow a r N of
           Inl e \<Rightarrow> (Inl e, w)
         | Inr v \<Rightarrow>
             if v = 1 then (Inr (Some r), print (Period_found r) w)
             else period_loop a N (r + 1) w)
      else (Inr None, w))"
  by pat_completeness auto
termination
  by (relation "measure (\<lambda>(a, N, r, w). nat (N - r))") auto

declare period_loop.simps [simp del]

definition simulate_period_finding ::
  "qsfQuantumComputer \<Rightarrow> int \<Rightarrow> int \<Rightarrow> world \<Rightarrow> (error + int option) \<times> world" where
  "simulate_period_finding self a N w = period_loop a N 1 (enter (Order_finder a N) w)"

definition run_quantum_circuit ::
  "qsfQuantumComputer \<Rightarrow> int \<Rightarrow> int \<Rightarrow> world \<Rightarrow> (error + int option) \<times> world" where
  "run_quantum_circuit self a N w =
     simulate_period_finding self a N (print (Running_circuit (qubit_count self)) w)"

subsection \<open>class QuantumSymmetryFactorization\<close>

record QuantumSymmetryFactorization =
  quantum_computer :: qsfQuantumComputer

text \<open>The method \<^verbatim>\<open>gcd\<close>: \<^verbatim>\<open>while b != 0: a, b = b, a % b\<close>, then \<^verbatim>\<open>return a\<close>.\<close>

function gcd_qsf :: "int \<Rightarrow> int \<Rightarrow> int" where
  "gcd_qsf a b = (if b \<noteq> 0 then gcd_qsf b (a mod b) else a)"
  by pat_completeness auto
termination
  by (relation "measure (\<lambda>(a, b). nat \<bar>b\<bar>)") (auto simp: abs_mod_less)

declare gcd_qsf.simps [simp del]

text \<open>\<^verbatim>\<open>math.gcd\<close>, imported by the module: the non-negative greatest common divisor.\<close>

definition math_gcd :: "int \<Rightarrow> int \<Rightarrow> int" where
  "math_gcd a b = gcd a b"

definition quantum_period_estimate ::
  "QuantumSymmetryFactorization \<Rightarrow> int \<Rightarrow> int \<Rightarrow> world \<Rightarrow> (error + int option) \<times> world" where
  "quantum_period_estimate self a N w = run_quantum_circuit (quantum_computer self) a N w"

definition extract_symmetry ::
  "QuantumSymmetryFactorization \<Rightarrow> int \<Rightarrow> int \<Rightarrow> int \<Rightarrow> world
     \<Rightarrow> (error + int option \<times> int option) \<times> world" where
  "extract_symmetry self a r N w =
     (let w1 = enter (Factor_extractor a r N) w in
      case py_pow a (r div 2) N of
        Inl e \<Rightarrow> (Inl e, w1)
      | Inr x \<Rightarrow>
          if x = 1 \<or> x = N - 1 then (Inr (None, None), w1)
          else (Inr (Some (gcd_qsf (x - 1) N), Some (gcd_qsf (x + 1) N)), w1))"

text \<open>
  One attempt. The guard \<^verbatim>\<open>r is None or r % 2 != 0\<close> is the first two cases on \<open>r\<close>;
  in \<^verbatim>\<open>factor1 and factor2 and factor1 * factor2 == N\<close> a \<^verbatim>\<open>None\<close> and a zero are false.
\<close>

definition quantum_symmetry_factor ::
  "QuantumSymmetryFactorization \<Rightarrow> int \<Rightarrow> world \<Rightarrow> (error + (int \<times> int) option) \<times> world" where
  "quantum_symmetry_factor self N w =
     (case randint 2 (N - 1) w of
        (Inl e, w1) \<Rightarrow> (Inl e, w1)
      | (Inr a, w1) \<Rightarrow>
          let gcd_value = gcd_qsf a N in
          if gcd_value > 1 then (Inr (Some (gcd_value, N div gcd_value)), w1)
          else
            (case quantum_period_estimate self a N w1 of
               (Inl e, w2) \<Rightarrow> (Inl e, w2)
             | (Inr None, w2) \<Rightarrow> (Inr None, print Failed_period w2)
             | (Inr (Some r), w2) \<Rightarrow>
                 if r mod 2 \<noteq> 0 then (Inr None, print Failed_period w2)
                 else
                   (case extract_symmetry self a r N w2 of
                      (Inl e, w3) \<Rightarrow> (Inl e, w3)
                    | (Inr (Some factor1, Some factor2), w3) \<Rightarrow>
                        if factor1 \<noteq> 0 \<and> factor2 \<noteq> 0 \<and> factor1 * factor2 = N
                        then (Inr (Some (factor1, factor2)), w3)
                        else (Inr None, print Factorization_failed w3)
                    | (Inr _, w3) \<Rightarrow> (Inr None, print Factorization_failed w3))))"

text \<open>The objects that the driver \<^verbatim>\<open>run_qsf_factorization\<close> constructs.\<close>

definition qsf :: qsfQuantumComputer where
  "qsf = \<lparr>qubit_count = 50\<rparr>"

definition qsf_algorithm :: QuantumSymmetryFactorization where
  "qsf_algorithm = \<lparr>quantum_computer = qsf\<rparr>"

section \<open>The Euclidean loop\<close>

lemma gcd_qsf_gcd: "0 \<le> b \<Longrightarrow> 0 \<le> a \<or> 0 < b \<Longrightarrow> gcd_qsf a b = gcd a b"
proof (induction a b rule: gcd_qsf.induct)
  case (1 a b)
  show ?case
  proof (cases "b = 0")
    case True
    with "1.prems" show ?thesis by (simp add: gcd_qsf.simps)
  next
    case False
    with "1.prems" have pos: "0 < b" by simp
    then have "gcd_qsf b (a mod b) = gcd b (a mod b)"
      using "1.IH" False by simp
    also have "\<dots> = gcd a b"
      by (metis gcd_red_int)
    finally show ?thesis
      using False by (simp add: gcd_qsf.simps)
  qed
qed

lemma gcd_qsf_terminates: "gcd_qsf_dom (a, b)"
proof -
  have "All gcd_qsf_dom"
    by (relation "measure (\<lambda>(a, b). nat \<bar>b\<bar>)") (auto simp: abs_mod_less)
  then show ?thesis by simp
qed

section \<open>The order-finding loop\<close>

lemma py_pow_nonneg: "N \<noteq> 0 \<Longrightarrow> 0 \<le> e \<Longrightarrow> py_pow a e N = Inr (a ^ nat e mod N)"
  by (simp add: py_pow_def)

lemma period_loop_Some:
  "0 \<le> r0 \<Longrightarrow> period_loop a N r0 w = (Inr (Some r), w') \<Longrightarrow>
     r0 \<le> r \<and> r < N \<and> a ^ nat r mod N = 1 \<and>
     (\<forall>k. r0 \<le> k \<and> k < r \<longrightarrow> a ^ nat k mod N \<noteq> 1) \<and> w' = print (Period_found r) w"
proof (induction a N r0 w rule: period_loop.induct)
  case (1 a N r0 w)
  from "1.prems" have lt: "r0 < N"
    by (subst (asm) period_loop.simps) (simp split: if_splits)
  with "1.prems" have pw: "py_pow a r0 N = Inr (a ^ nat r0 mod N)"
    by (intro py_pow_nonneg) auto
  show ?case
  proof (cases "a ^ nat r0 mod N = 1")
    case True
    with "1.prems" lt pw show ?thesis
      by (subst (asm) period_loop.simps) auto
  next
    case False
    with "1.prems" lt pw have rec: "period_loop a N (r0 + 1) w = (Inr (Some r), w')"
      by (subst (asm) period_loop.simps) simp
    from "1.IH"[OF lt pw False _ rec] "1.prems"(1)
    have ih: "r0 + 1 \<le> r \<and> r < N \<and> a ^ nat r mod N = 1 \<and>
       (\<forall>k. r0 + 1 \<le> k \<and> k < r \<longrightarrow> a ^ nat k mod N \<noteq> 1) \<and> w' = print (Period_found r) w"
      by simp
    have "a ^ nat k mod N \<noteq> 1" if "r0 \<le> k" "k < r" for k
    proof (cases "k = r0")
      case True with False show ?thesis by simp
    next
      case False with that ih show ?thesis by simp
    qed
    with ih show ?thesis by simp
  qed
qed

lemma period_loop_None:
  "0 \<le> r0 \<Longrightarrow> period_loop a N r0 w = (Inr None, w') \<Longrightarrow>
     (\<forall>k. r0 \<le> k \<and> k < N \<longrightarrow> a ^ nat k mod N \<noteq> 1) \<and> w' = w"
proof (induction a N r0 w rule: period_loop.induct)
  case (1 a N r0 w)
  show ?case
  proof (cases "r0 < N")
    case False
    with "1.prems" show ?thesis
      by (subst (asm) period_loop.simps) simp
  next
    case lt: True
    with "1.prems" have pw: "py_pow a r0 N = Inr (a ^ nat r0 mod N)"
      by (intro py_pow_nonneg) auto
    from "1.prems" lt pw have ne: "a ^ nat r0 mod N \<noteq> 1"
      by (subst (asm) period_loop.simps) (auto split: if_splits)
    with "1.prems" lt pw have rec: "period_loop a N (r0 + 1) w = (Inr None, w')"
      by (subst (asm) period_loop.simps) simp
    from "1.IH"[OF lt pw ne _ rec] "1.prems"(1)
    have ih: "(\<forall>k. r0 + 1 \<le> k \<and> k < N \<longrightarrow> a ^ nat k mod N \<noteq> 1) \<and> w' = w"
      by simp
    have "a ^ nat k mod N \<noteq> 1" if "r0 \<le> k" "k < N" for k
    proof (cases "k = r0")
      case True with ne show ?thesis by simp
    next
      case False with that ih show ?thesis by simp
    qed
    with ih show ?thesis by simp
  qed
qed

lemma period_loop_no_error: "0 \<le> r0 \<Longrightarrow> fst (period_loop a N r0 w) \<noteq> Inl e"
proof (induction a N r0 w rule: period_loop.induct)
  case (1 a N r0 w)
  show ?case
  proof (cases "r0 < N")
    case False
    then show ?thesis by (subst period_loop.simps) simp
  next
    case lt: True
    with "1.prems" have pw: "py_pow a r0 N = Inr (a ^ nat r0 mod N)"
      by (intro py_pow_nonneg) auto
    show ?thesis
    proof (cases "a ^ nat r0 mod N = 1")
      case True
      with lt pw show ?thesis by (subst period_loop.simps) simp
    next
      case False
      from "1.IH"[OF lt pw False] "1.prems" have "fst (period_loop a N (r0 + 1) w) \<noteq> Inl e"
        by simp
      with lt pw False show ?thesis by (subst period_loop.simps) simp
    qed
  qed
qed

lemma period_loop_world:
  "fst (period_loop a N r0 w) = fst (period_loop a N r0 v)"
proof (induction a N r0 w rule: period_loop.induct)
  case (1 a N r0 w)
  show ?case
  proof (cases "r0 < N")
    case False
    then show ?thesis by (simp add: period_loop.simps[of a N r0])
  next
    case lt: True
    show ?thesis
    proof (cases "py_pow a r0 N")
      case (Inl e)
      with lt show ?thesis by (simp add: period_loop.simps[of a N r0])
    next
      case (Inr x)
      show ?thesis
      proof (cases "x = 1")
        case True
        with lt Inr show ?thesis by (simp add: period_loop.simps[of a N r0])
      next
        case False
        from "1.IH"[OF lt Inr False] lt Inr False show ?thesis
          by (simp add: period_loop.simps[of a N r0])
      qed
    qed
  qed
qed

lemma period_loop_snd:
  "snd (period_loop a N r0 w) =
     (case fst (period_loop a N r0 w) of Inr (Some r) \<Rightarrow> print (Period_found r) w | _ \<Rightarrow> w)"
proof (induction a N r0 w rule: period_loop.induct)
  case (1 a N r0 w)
  show ?case
  proof (cases "r0 < N")
    case False
    then show ?thesis by (simp add: period_loop.simps[of a N r0])
  next
    case lt: True
    show ?thesis
    proof (cases "py_pow a r0 N")
      case (Inl e)
      with lt show ?thesis by (simp add: period_loop.simps[of a N r0])
    next
      case (Inr x)
      show ?thesis
      proof (cases "x = 1")
        case True
        with lt Inr show ?thesis by (simp add: period_loop.simps[of a N r0])
      next
        case False
        from "1.IH"[OF lt Inr False] lt Inr False show ?thesis
          by (simp add: period_loop.simps[of a N r0])
      qed
    qed
  qed
qed

lemma period_loop_frame:
  "rng (snd (period_loop a N r0 w)) = rng w \<and> calls (snd (period_loop a N r0 w)) = calls w"
  by (simp add: period_loop_snd print_def split: sum.split option.split)

section \<open>The order finder\<close>

text \<open>
  C2. For a modulus \<open>N \<ge> 2\<close> and any base \<open>a\<close>, \<^verbatim>\<open>simulate_period_finding\<close> returns \<open>r\<close>
  exactly when \<open>r\<close> is the smallest member of \<open>[1, N)\<close> with \<open>a ^ r mod N = 1\<close>, and returns
  \<^verbatim>\<open>None\<close> exactly when no member of \<open>[1, N)\<close> satisfies the condition; a returned \<open>r\<close> is
  the least positive integer with \<open>a ^ r mod N = 1\<close>, for a coprime pair as for any other.
\<close>

theorem simulate_period_finding_least:
  assumes "2 \<le> N"
  shows "(fst (simulate_period_finding self a N w) = Inr (Some r) \<longleftrightarrow>
            1 \<le> r \<and> r < N \<and> a ^ nat r mod N = 1 \<and>
            (\<forall>k. 1 \<le> k \<and> k < r \<longrightarrow> a ^ nat k mod N \<noteq> 1)) \<and>
         (fst (simulate_period_finding self a N w) = Inr None \<longleftrightarrow>
            (\<forall>k. 1 \<le> k \<and> k < N \<longrightarrow> a ^ nat k mod N \<noteq> 1)) \<and>
         (fst (simulate_period_finding self a N w) = Inr (Some r) \<longrightarrow>
            (\<forall>k. 1 \<le> k \<and> a ^ nat k mod N = 1 \<longrightarrow> r \<le> k))"
proof -
  let ?w = "enter (Order_finder a N) w"
  let ?res = "fst (simulate_period_finding self a N w)"
  obtain res w' where run: "period_loop a N 1 ?w = (res, w')"
    by (cases "period_loop a N 1 ?w")
  then have res: "?res = res"
    by (simp add: simulate_period_finding_def)
  have ne: "res \<noteq> Inl e" for e
    using period_loop_no_error [of 1 a N ?w e] run by simp
  have some: "1 \<le> r' \<and> r' < N \<and> a ^ nat r' mod N = 1 \<and>
      (\<forall>k. 1 \<le> k \<and> k < r' \<longrightarrow> a ^ nat k mod N \<noteq> 1)" if "res = Inr (Some r')" for r'
    using period_loop_Some [of 1 a N ?w r' w'] run that by simp
  have none: "\<forall>k. 1 \<le> k \<and> k < N \<longrightarrow> a ^ nat k mod N \<noteq> 1" if "res = Inr None"
    using period_loop_None [of 1 a N ?w w'] run that by simp
  have cases: "res = Inr None \<or> (\<exists>r'. res = Inr (Some r'))"
    using ne by (cases res) auto
  have A: "res = Inr (Some r)"
    if h: "1 \<le> r" "r < N" "a ^ nat r mod N = 1" "\<forall>k. 1 \<le> k \<and> k < r \<longrightarrow> a ^ nat k mod N \<noteq> 1"
  proof -
    from cases show ?thesis
    proof
      assume "res = Inr None"
      from none [OF this] h show ?thesis by blast
    next
      assume "\<exists>r'. res = Inr (Some r')"
      then obtain r' where r': "res = Inr (Some r')" ..
      note s = some [OF r']
      have "\<not> r' < r" using s h by blast
      moreover have "\<not> r < r'" using s h by blast
      ultimately show ?thesis using r' by simp
    qed
  qed
  have B: "res = Inr None" if h: "\<forall>k. 1 \<le> k \<and> k < N \<longrightarrow> a ^ nat k mod N \<noteq> 1"
  proof -
    from cases show ?thesis
    proof
      assume "\<exists>r'. res = Inr (Some r')"
      then obtain r' where r': "res = Inr (Some r')" ..
      from some [OF r'] h show ?thesis by blast
    qed
  qed
  have C: "r \<le> k" if "res = Inr (Some r)" "1 \<le> k" "a ^ nat k mod N = 1" for k
  proof (rule ccontr)
    assume "\<not> r \<le> k"
    with some [OF that(1)] that show False by auto
  qed
  show ?thesis
    unfolding res using A B C some none by blast
qed

theorem simulate_period_finding_least_witness:
  "(2::int) \<le> 15 \<and>
   fst (simulate_period_finding qsf 7 15 \<lparr>rng = sconst 0, stdout = [], calls = []\<rparr>) = Inr (Some 4) \<and>
   (7::int) ^ nat 4 mod 15 = 1 \<and>
   (\<nexists>k::int. 1 \<le> k \<and> k < 4 \<and> 7 ^ nat k mod 15 = (1::int))"
proof -
  let ?w = "\<lparr>rng = sconst 0, stdout = [], calls = []\<rparr>"
  have run: "fst (simulate_period_finding qsf 7 15 ?w) = Inr (Some 4)"
    by (simp add: simulate_period_finding_def period_loop.simps py_pow_def)
  show ?thesis
    using simulate_period_finding_least [of 15 qsf 7 ?w 4] run by simp
qed

section \<open>The factor extractor\<close>

lemma extract_symmetry_run:
  assumes "N \<noteq> 0" "0 \<le> r"
  shows "extract_symmetry self a r N w =
    (let x = a ^ nat (r div 2) mod N in
     (if x = 1 \<or> x = N - 1 then Inr (None, None)
      else Inr (Some (gcd_qsf (x - 1) N), Some (gcd_qsf (x + 1) N)),
      enter (Factor_extractor a r N) w))"
proof -
  from assms have "py_pow a (r div 2) N = Inr (a ^ nat (r div 2) mod N)"
    by (intro py_pow_nonneg) auto
  then show ?thesis
    by (simp add: extract_symmetry_def Let_def)
qed

lemma extract_symmetry_fst:
  "fst (extract_symmetry self a r N w) =
     (case py_pow a (r div 2) N of
        Inl e \<Rightarrow> Inl e
      | Inr x \<Rightarrow>
          if x = 1 \<or> x = N - 1 then Inr (None, None)
          else Inr (Some (gcd_qsf (x - 1) N), Some (gcd_qsf (x + 1) N)))"
  by (simp add: extract_symmetry_def Let_def split: sum.split)

lemma extract_symmetry_snd:
  "snd (extract_symmetry self a r N w) = enter (Factor_extractor a r N) w"
  by (simp add: extract_symmetry_def Let_def split: sum.split)

lemma extract_symmetry_world:
  "fst (extract_symmetry self a r N w) = fst (extract_symmetry self' a r N w')"
  by (simp add: extract_symmetry_fst)

text \<open>
  C3. For a modulus \<open>N \<ge> 2\<close>, any base \<open>a\<close> and an even order \<open>r \<ge> 0\<close>, with
  \<open>x = a ^ (r div 2) mod N\<close>: \<^verbatim>\<open>extract_symmetry\<close> returns \<^verbatim>\<open>(None, None)\<close> exactly when
  \<open>x = 1\<close> or \<open>x = N - 1\<close>, and otherwise the pair \<open>(gcd (x - 1) N, gcd (x + 1) N)\<close>.
\<close>

theorem extract_symmetry_spec:
  assumes "2 \<le> N" and "0 \<le> r" and "even r"
  shows "let x = a ^ nat (r div 2) mod N in
         (fst (extract_symmetry self a r N w) = Inr (None, None) \<longleftrightarrow> x = 1 \<or> x = N - 1) \<and>
         (\<not> (x = 1 \<or> x = N - 1) \<longrightarrow>
            fst (extract_symmetry self a r N w) = Inr (Some (gcd (x - 1) N), Some (gcd (x + 1) N)))"
proof -
  define x where "x = a ^ nat (r div 2) mod N"
  from assms have N: "N \<noteq> 0" "0 < N" by auto
  have x0: "0 \<le> x" unfolding x_def using N by simp
  have g1: "gcd_qsf (x - 1) N = gcd (x - 1) N"
    using N by (intro gcd_qsf_gcd) auto
  have g2: "gcd_qsf (x + 1) N = gcd (x + 1) N"
    using N x0 by (intro gcd_qsf_gcd) auto
  show ?thesis
    using extract_symmetry_run [OF N(1) assms(2), of self a w] g1 g2
    by (simp add: Let_def x_def)
qed

theorem extract_symmetry_spec_witness:
  "(2::int) \<le> 15 \<and> (0::int) \<le> 4 \<and> even (4::int) \<and>
   fst (extract_symmetry qsf_algorithm 7 4 15 \<lparr>rng = sconst 0, stdout = [], calls = []\<rparr>) =
     Inr (Some 3, Some 5) \<and>
   fst (extract_symmetry qsf_algorithm 14 2 15 \<lparr>rng = sconst 0, stdout = [], calls = []\<rparr>) =
     Inr (None, None)"
proof -
  let ?w = "\<lparr>rng = sconst 0, stdout = [], calls = []\<rparr>"
  have a: "gcd (3::int) 15 = 3" "gcd (5::int) 15 = 5" by simp_all
  show ?thesis
    using extract_symmetry_spec [of 15 4 7 qsf_algorithm ?w]
      extract_symmetry_spec [of 15 2 14 qsf_algorithm ?w] a
    by (simp add: Let_def)
qed

text \<open>
  C6. The scenario \<open>N = 15\<close>, \<open>a = 7\<close>: the order finder returns \<open>4\<close>, as
  \<open>7 ^ 4 mod 15 = 1\<close>; the extractor computes \<open>x = 7 ^ 2 mod 15 = 4\<close> and returns
  \<open>(gcd 3 15, gcd 5 15) = (3, 5)\<close>, whose product is \<open>15\<close>.
\<close>

theorem scenario_15_7:
  "fst (simulate_period_finding qsf 7 15 w) = Inr (Some 4) \<and>
   (7::int) ^ 4 mod 15 = 1 \<and>
   py_pow 7 (4 div 2) 15 = Inr 4 \<and>
   gcd_qsf (4 - 1) 15 = 3 \<and> gcd_qsf (4 + 1) 15 = 5 \<and>
   fst (extract_symmetry qsf_algorithm 7 4 15 w) = Inr (Some 3, Some 5) \<and>
   (3::int) * 5 = 15"
  by (simp add: simulate_period_finding_def period_loop_world [of 7 15 1 _ w] 
      period_loop.simps py_pow_def extract_symmetry_def gcd_qsf.simps Let_def)

section \<open>Sampling and the attempt\<close>

lemma randint_sample:
  assumes "3 \<le> N"
  shows "\<exists>a. randint 2 (N - 1) w = (Inr a, w\<lparr>rng := stl (rng w)\<rparr>) \<and> 2 \<le> a \<and> a \<le> N - 1"
proof -
  let ?a = "2 + int (shd (rng w)) mod (N - 1 - 2 + 1)"
  from assms have "0 < N - 1 - 2 + 1" by simp
  then have "0 \<le> int (shd (rng w)) mod (N - 1 - 2 + 1)"
    and "int (shd (rng w)) mod (N - 1 - 2 + 1) < N - 1 - 2 + 1"
    by (rule pos_mod_sign, rule pos_mod_bound)
  then have "2 \<le> ?a \<and> ?a \<le> N - 1" by simp
  moreover from assms have "randint 2 (N - 1) w = (Inr ?a, w\<lparr>rng := stl (rng w)\<rparr>)"
    by (simp add: randint_def)
  ultimately show ?thesis by blast
qed

lemma randint_range:
  "randint lo hi w = (Inr a, w1) \<Longrightarrow>
     lo \<le> a \<and> a \<le> hi \<and> w1 = w\<lparr>rng := stl (rng w)\<rparr>"
proof -
  assume run: "randint lo hi w = (Inr a, w1)"
  then have le: "lo \<le> hi" by (simp add: randint_def split: if_splits)
  then have pos: "0 < hi - lo + 1" by simp
  have "0 \<le> int (shd (rng w)) mod (hi - lo + 1)"
    and "int (shd (rng w)) mod (hi - lo + 1) < hi - lo + 1"
    using pos by (rule pos_mod_sign, rule pos_mod_bound)
  with run le show ?thesis by (auto simp: randint_def)
qed

text \<open>Every base of the range is the sample of some generator.\<close>

lemma randint_onto:
  assumes "lo \<le> a" and "a \<le> hi"
  shows "\<exists>w. fst (randint lo hi w) = Inr a"
proof -
  let ?w = "\<lparr>rng = sconst (nat (a - lo)), stdout = [], calls = []\<rparr>"
  from assms have "int (nat (a - lo)) mod (hi - lo + 1) = a - lo" by simp
  with assms have "fst (randint lo hi ?w) = Inr a"
    by (simp add: randint_def)
  then show ?thesis ..
qed

lemma quantum_period_estimate_fst:
  "fst (quantum_period_estimate self a N w) = fst (period_loop a N 1 v)"
  unfolding quantum_period_estimate_def run_quantum_circuit_def simulate_period_finding_def
  by (rule period_loop_world)

lemma quantum_period_estimate_frame:
  assumes "quantum_period_estimate self a N w = (res, w')"
  shows "calls w' = calls w @ [Order_finder a N]" and "rng w' = rng w"
proof -
  let ?v = "enter (Order_finder a N) (print (Running_circuit (qubit_count (quantum_computer self))) w)"
  from assms have w': "w' = snd (period_loop a N 1 ?v)"
    by (simp add: quantum_period_estimate_def run_quantum_circuit_def simulate_period_finding_def)
  show "calls w' = calls w @ [Order_finder a N]"
    unfolding w' by (simp add: period_loop_frame enter_def print_def)
  show "rng w' = rng w"
    unfolding w' by (simp add: period_loop_frame enter_def print_def)
qed

lemma quantum_period_estimate_order:
  assumes "quantum_period_estimate self a N w = (Inr (Some r), w')"
  shows "1 \<le> r" and "r < N"
proof -
  obtain v v' where "period_loop a N 1 v = (Inr (Some r), v')"
    using assms
    by (simp add: quantum_period_estimate_def run_quantum_circuit_def simulate_period_finding_def)
  from period_loop_Some [OF _ this] show "1 \<le> r" and "r < N" by simp_all
qed

lemma quantum_period_estimate_no_error:
  "quantum_period_estimate self a N w \<noteq> (Inl e, w')"
  using period_loop_no_error [of 1 a N _ e]
  by (auto simp: quantum_period_estimate_def run_quantum_circuit_def simulate_period_finding_def
      dest!: arg_cong [where f = fst])

lemma proper_factors:
  fixes f1 f2 N :: int
  assumes "0 < f1" "0 < f2" "f1 * f2 = N" "f1 < N" "f2 < N"
  shows "1 < f1 \<and> 1 < f2"
proof -
  have "f1 \<noteq> 1" using assms by auto
  moreover have "f2 \<noteq> 1" using assms by auto
  ultimately show ?thesis using assms by simp
qed

lemma quantum_symmetry_factor_fst:
  "fst (quantum_symmetry_factor self N w) =
     (case fst (randint 2 (N - 1) w) of
        Inl e \<Rightarrow> Inl e
      | Inr a \<Rightarrow>
          if gcd_qsf a N > 1 then Inr (Some (gcd_qsf a N, N div gcd_qsf a N))
          else
            (case fst (period_loop a N 1 v) of
               Inl e \<Rightarrow> Inl e
             | Inr None \<Rightarrow> Inr None
             | Inr (Some r) \<Rightarrow>
                 if r mod 2 \<noteq> 0 then Inr None
                 else
                   (case fst (extract_symmetry self' a r N v) of
                      Inl e \<Rightarrow> Inl e
                    | Inr (Some factor1, Some factor2) \<Rightarrow>
                        if factor1 \<noteq> 0 \<and> factor2 \<noteq> 0 \<and> factor1 * factor2 = N
                        then Inr (Some (factor1, factor2)) else Inr None
                    | Inr _ \<Rightarrow> Inr None)))"
proof -
  obtain s w1 where s: "randint 2 (N - 1) w = (s, w1)"
    by (cases "randint 2 (N - 1) w")
  show ?thesis
  proof (cases s)
    case (Inl e)
    with s show ?thesis by (simp add: quantum_symmetry_factor_def)
  next
    case (Inr a)
    obtain res w2 where q: "quantum_period_estimate self a N w1 = (res, w2)"
      by (cases "quantum_period_estimate self a N w1")
    have res: "fst (period_loop a N 1 v) = res"
      using quantum_period_estimate_fst [of self a N w1 v] q by simp
    show ?thesis
    proof (cases "gcd_qsf a N > 1")
      case True
      with s Inr show ?thesis by (simp add: quantum_symmetry_factor_def Let_def)
    next
      case False
      show ?thesis
      proof (cases res)
        case (Inl e)
        with s Inr False q res show ?thesis
          by (simp add: quantum_symmetry_factor_def Let_def)
      next
        case found: (Inr ro)
        show ?thesis
        proof (cases ro)
          case None
          with s Inr False q res found show ?thesis
            by (simp add: quantum_symmetry_factor_def Let_def)
        next
          case (Some r)
          obtain x w3 where e: "extract_symmetry self a r N w2 = (x, w3)"
            by (cases "extract_symmetry self a r N w2")
          have x: "fst (extract_symmetry self' a r N v) = x"
            using extract_symmetry_world [of self' a r N v self w2] e by simp
          from s Inr False q res found Some e x show ?thesis
            by (simp add: quantum_symmetry_factor_def Let_def
                split: sum.split option.split prod.split)
        qed
      qed
    qed
  qed
qed

lemma shortcut_pair:
  fixes a N :: int
  assumes "2 \<le> a" "a \<le> N - 1" "1 < gcd a N"
  shows "gcd a N * (N div gcd a N) = N" and "gcd a N < N"
    and "1 < N div gcd a N" and "N div gcd a N < N"
proof -
  let ?g = "gcd a N"
  show prod: "?g * (N div ?g) = N" by simp
  have "?g \<le> a" using assms(1) by (intro gcd_le1_int) simp
  with assms show lt: "?g < N" by simp
  have pos: "0 < ?g" using assms by simp
  have "0 < N div ?g"
    using pos lt by (simp add: pos_imp_zdiv_pos_iff)
  moreover have "N div ?g \<noteq> 1"
    using prod lt by (metis mult.right_neutral less_irrefl)
  ultimately show "1 < N div ?g" by simp
  show "N div ?g < N"
    using assms lt pos by (intro int_div_less_self) auto
qed

text \<open>
  C9. For \<open>N \<le> 2\<close> the base is drawn from the empty range \<open>[2, N - 1]\<close>: \<^verbatim>\<open>randint\<close>
  raises \<^verbatim>\<open>ValueError\<close>, and so does \<^verbatim>\<open>quantum_symmetry_factor\<close>, which does not return
  \<^verbatim>\<open>None\<close>; the operation is not total over the positive integers \<open>1\<close> and \<open>2\<close>.
\<close>

theorem empty_range_raises:
  "N \<le> 2 \<Longrightarrow>
     randint 2 (N - 1) w = (Inl ValueError, w) \<and>
     quantum_symmetry_factor self N w = (Inl ValueError, w) \<and>
     fst (quantum_symmetry_factor self N w) \<noteq> Inr None"
  by (simp add: quantum_symmetry_factor_def randint_def)

theorem empty_range_raises_witness:
  "(2::int) \<le> 2 \<and>
   fst (quantum_symmetry_factor qsf_algorithm 2 \<lparr>rng = sconst 0, stdout = [], calls = []\<rparr>) = Inl ValueError \<and>
   fst (quantum_symmetry_factor qsf_algorithm 1 \<lparr>rng = sconst 0, stdout = [], calls = []\<rparr>) = Inl ValueError"
  using empty_range_raises [of 2 "\<lparr>rng = sconst 0, stdout = [], calls = []\<rparr>" qsf_algorithm]
    empty_range_raises [of 1 "\<lparr>rng = sconst 0, stdout = [], calls = []\<rparr>" qsf_algorithm]
  by simp

text \<open>
  C4. For \<open>N \<ge> 3\<close> and a sampled base \<open>a\<close>, which lies in \<open>[2, N - 1]\<close>: if
  \<open>g = gcd a N > 1\<close>, the attempt succeeds with the pair \<open>(g, N div g)\<close>, and it ends in
  the world as the sampling left it: no invocation of the order finder or of the
  extractor has been recorded, and nothing has been printed.
\<close>

theorem trivial_gcd_shortcut:
  assumes "3 \<le> N" and "randint 2 (N - 1) w = (Inr a, w1)" and "1 < gcd a N"
  shows "2 \<le> a \<and> a \<le> N - 1 \<and>
         quantum_symmetry_factor self N w = (Inr (Some (gcd a N, N div gcd a N)), w1) \<and>
         calls w1 = calls w \<and> stdout w1 = stdout w"
proof -
  from randint_range [OF assms(2)]
  have a: "2 \<le> a" "a \<le> N - 1" and w1: "w1 = w\<lparr>rng := stl (rng w)\<rparr>" by simp_all
  have g: "gcd_qsf a N = gcd a N"
    using assms(1) a by (intro gcd_qsf_gcd) auto
  have "quantum_symmetry_factor self N w = (Inr (Some (gcd a N, N div gcd a N)), w1)"
    using assms(2,3) g by (simp add: quantum_symmetry_factor_def Let_def)
  with a w1 show ?thesis by simp
qed

theorem trivial_gcd_shortcut_witness:
  "(3::int) \<le> 15 \<and> 1 < gcd (5::int) 15 \<and>
   quantum_symmetry_factor qsf_algorithm 15 \<lparr>rng = sconst 3, stdout = [], calls = []\<rparr> =
     (Inr (Some (5, 3)), \<lparr>rng = sconst 3, stdout = [], calls = []\<rparr>)"
proof -
  let ?w = "\<lparr>rng = sconst 3, stdout = [], calls = []\<rparr>"
  have s: "randint 2 (15 - 1) ?w = (Inr 5, ?w)" by (simp add: randint_def)
  have g: "gcd (5::int) 15 = 5" by simp
  show ?thesis
    using trivial_gcd_shortcut [of 15 ?w 5 ?w qsf_algorithm] s g by simp
qed

lemma extraction_pair:
  fixes x N :: int
  assumes "3 \<le> N" "0 \<le> x" "x < N" "x \<noteq> 1" "x \<noteq> N - 1"
    and "gcd (x - 1) N * gcd (x + 1) N = N"
  shows "1 < gcd (x - 1) N \<and> gcd (x - 1) N < N \<and> 1 < gcd (x + 1) N \<and> gcd (x + 1) N < N"
proof -
  let ?f1 = "gcd (x - 1) N" and ?f2 = "gcd (x + 1) N"
  have p1: "0 < ?f1" and p2: "0 < ?f2" using assms(1) by simp_all
  have "?f2 \<le> x + 1" using assms(2) by (intro gcd_le1_int) simp
  moreover have "x + 1 < N" using assms(3,5) by simp
  ultimately have lt2: "?f2 < N" by simp
  have lt1: "?f1 < N"
  proof (cases "x = 0")
    case True
    then show ?thesis using assms(1) by simp
  next
    case False
    with assms(2,4) have "0 < x - 1" by simp
    then have "?f1 \<le> x - 1" by (rule gcd_le1_int)
    with assms(3) show ?thesis by simp
  qed
  from proper_factors [OF p1 p2 assms(6) lt1 lt2] lt1 lt2 show ?thesis by simp
qed

text \<open>
  C1. For \<open>N \<ge> 3\<close>, whenever \<^verbatim>\<open>quantum_symmetry_factor\<close> returns a pair, by the shortcut
  of the trivial gcd or by the extraction, the product of the pair is \<open>N\<close> and each
  factor lies strictly between \<open>1\<close> and \<open>N\<close>.
\<close>

theorem quantum_symmetry_factor_pair:
  assumes "3 \<le> N"
    and "fst (quantum_symmetry_factor self N w) = Inr (Some (factor1, factor2))"
  shows "factor1 * factor2 = N \<and> 1 < factor1 \<and> factor1 < N \<and> 1 < factor2 \<and> factor2 < N"
proof -
  from randint_sample [OF assms(1), of w] obtain a w1
    where s: "randint 2 (N - 1) w = (Inr a, w1)" and a: "2 \<le> a" "a \<le> N - 1" by blast
  have g: "gcd_qsf a N = gcd a N"
    using assms(1) a by (intro gcd_qsf_gcd) auto
  show ?thesis
  proof (cases "1 < gcd a N")
    case True
    with s g assms(2) have f: "factor1 = gcd a N" "factor2 = N div gcd a N"
      by (auto simp: quantum_symmetry_factor_def Let_def)
    from shortcut_pair [OF a True] True show ?thesis unfolding f by simp
  next
    case False
    obtain res w2 where q: "quantum_period_estimate self a N w1 = (res, w2)"
      by (cases "quantum_period_estimate self a N w1")
    from s g False q assms(2) obtain r where res: "res = Inr (Some r)" and ev: "r mod 2 = 0"
      by (cases res; cases "projr res")
        (auto simp: quantum_symmetry_factor_def Let_def split: if_splits)
    from quantum_period_estimate_order [OF q [unfolded res]] have r: "0 \<le> r" by simp
    define x where "x = a ^ nat (r div 2) mod N"
    from assms(1) have N: "N \<noteq> 0" "0 < N" by simp_all
    have x: "0 \<le> x" "x < N" unfolding x_def using N by simp_all
    have g1: "gcd_qsf (x - 1) N = gcd (x - 1) N" using N by (intro gcd_qsf_gcd) auto
    have g2: "gcd_qsf (x + 1) N = gcd (x + 1) N" using N x by (intro gcd_qsf_gcd) auto
    note ex = extract_symmetry_run [OF N(1) r, of self a w2, folded x_def]
    from s g False q res ev ex assms(2)
    have out: "x \<noteq> 1" "x \<noteq> N - 1" "factor1 = gcd (x - 1) N" "factor2 = gcd (x + 1) N"
        "factor1 * factor2 = N"
      by (auto simp: quantum_symmetry_factor_def Let_def g1 g2 split: if_splits)
    from out(5) have "gcd (x - 1) N * gcd (x + 1) N = N"
      unfolding out(3,4) .
    from extraction_pair [OF assms(1) x out(1,2) this] out(5) show ?thesis
      unfolding out(3,4) by blast
  qed
qed

theorem quantum_symmetry_factor_pair_witness:
  "(3::int) \<le> 15 \<and>
   fst (quantum_symmetry_factor qsf_algorithm 15 \<lparr>rng = sconst 5, stdout = [], calls = []\<rparr>) =
     Inr (Some (3, 5)) \<and>
   fst (quantum_symmetry_factor qsf_algorithm 15 \<lparr>rng = sconst 3, stdout = [], calls = []\<rparr>) =
     Inr (Some (5, 3)) \<and>
   (3::int) * 5 = 15 \<and> (1::int) < 3 \<and> (3::int) < 15 \<and> (1::int) < 5 \<and> (5::int) < 15"
proof -
  let ?w = "\<lparr>rng = sconst 5, stdout = [], calls = []\<rparr>"
  let ?v = "\<lparr>rng = sconst 3, stdout = [], calls = []\<rparr>"
  have e: "fst (quantum_symmetry_factor qsf_algorithm 15 ?w) = Inr (Some (3, 5))"
    by (simp add: quantum_symmetry_factor_def randint_def quantum_period_estimate_def
        run_quantum_circuit_def simulate_period_finding_def period_loop.simps py_pow_def
        print_def enter_def extract_symmetry_def gcd_qsf.simps Let_def)
  have s: "fst (quantum_symmetry_factor qsf_algorithm 15 ?v) = Inr (Some (5, 3))"
    by (simp add: quantum_symmetry_factor_def randint_def gcd_qsf.simps Let_def)
  show ?thesis
    using quantum_symmetry_factor_pair [OF _ e] quantum_symmetry_factor_pair [OF _ s] e s
    by simp
qed

text \<open>
  C5. For \<open>N \<ge> 3\<close> and a sampled base \<open>a\<close> coprime to \<open>N\<close>, the attempt raises no
  exception, and it returns \<^verbatim>\<open>None\<close> in each of these cases: the order finder reports
  \<^verbatim>\<open>None\<close>; the order found is odd; the extraction is degenerate and yields
  \<^verbatim>\<open>(None, None)\<close>; the product of the extracted factors is not \<open>N\<close>.
\<close>

theorem attempt_failures_absent:
  assumes "3 \<le> N" and "randint 2 (N - 1) w = (Inr a, w1)" and "coprime a N"
    and "quantum_period_estimate self a N w1 = (res, w2)"
  shows "(\<forall>e. fst (quantum_symmetry_factor self N w) \<noteq> Inl e) \<and>
         (res = Inr None \<longrightarrow> fst (quantum_symmetry_factor self N w) = Inr None) \<and>
         (\<forall>r. res = Inr (Some r) \<and> odd r \<longrightarrow>
            fst (quantum_symmetry_factor self N w) = Inr None) \<and>
         (\<forall>r. res = Inr (Some r) \<and> even r \<and>
              fst (extract_symmetry self a r N w2) = Inr (None, None) \<longrightarrow>
            fst (quantum_symmetry_factor self N w) = Inr None) \<and>
         (\<forall>r factor1 factor2. res = Inr (Some r) \<and> even r \<and>
              fst (extract_symmetry self a r N w2) = Inr (Some factor1, Some factor2) \<and>
              factor1 * factor2 \<noteq> N \<longrightarrow>
            fst (quantum_symmetry_factor self N w) = Inr None)"
proof -
  from randint_range [OF assms(2)] have a: "2 \<le> a" "a \<le> N - 1" by simp_all
  have "gcd_qsf a N = gcd a N"
    using assms(1) a by (intro gcd_qsf_gcd) auto
  with assms(3) have g: "\<not> gcd_qsf a N > 1" by simp
  from assms(1) have N: "N \<noteq> 0" by simp
  have qsf: "quantum_symmetry_factor self N w =
    (case res of
       Inl e \<Rightarrow> (Inl e, w2)
     | Inr None \<Rightarrow> (Inr None, print Failed_period w2)
     | Inr (Some r) \<Rightarrow>
         if r mod 2 \<noteq> 0 then (Inr None, print Failed_period w2)
         else
           (case extract_symmetry self a r N w2 of
              (Inl e, w3) \<Rightarrow> (Inl e, w3)
            | (Inr (Some factor1, Some factor2), w3) \<Rightarrow>
                if factor1 \<noteq> 0 \<and> factor2 \<noteq> 0 \<and> factor1 * factor2 = N
                then (Inr (Some (factor1, factor2)), w3)
                else (Inr None, print Factorization_failed w3)
            | (Inr _, w3) \<Rightarrow> (Inr None, print Factorization_failed w3)))"
    using assms(2,4) g
    by (simp add: quantum_symmetry_factor_def Let_def split: sum.split option.split)
  have noerr: "res \<noteq> Inl e" for e
    using quantum_period_estimate_no_error [of self a N w1 e w2] assms(4) by simp
  have ext: "fst (extract_symmetry self a r N w2) \<noteq> Inl e" if "res = Inr (Some r)" for r e
  proof -
    from quantum_period_estimate_order [OF assms(4) [unfolded that]] have "0 \<le> r" by simp
    from extract_symmetry_run [OF N this, of self a w2] show ?thesis
      by (simp add: Let_def)
  qed
  have 1: "fst (quantum_symmetry_factor self N w) \<noteq> Inl e" for e
  proof (cases res)
    case (Inl e')
    with noerr [of e'] show ?thesis by simp
  next
    case (Inr ro)
    show ?thesis
    proof (cases ro)
      case None
      with Inr qsf show ?thesis by simp
    next
      case (Some r)
      with Inr have "res = Inr (Some r)" by simp
      from ext [OF this, of e] qsf this show ?thesis
        by (cases "extract_symmetry self a r N w2")
          (auto split: sum.splits option.splits prod.splits)
    qed
  qed
  have 2: "fst (quantum_symmetry_factor self N w) = Inr None" if "res = Inr None"
    using qsf that by simp
  have 3: "fst (quantum_symmetry_factor self N w) = Inr None" if "res = Inr (Some r)" "odd r" for r
    using qsf that by (simp add: odd_iff_mod_2_eq_one)
  have 4: "fst (quantum_symmetry_factor self N w) = Inr None"
    if "res = Inr (Some r)" "even r" "fst (extract_symmetry self a r N w2) = Inr (None, None)" for r
    using qsf that by (cases "extract_symmetry self a r N w2") auto
  have 5: "fst (quantum_symmetry_factor self N w) = Inr None"
    if "res = Inr (Some r)" "even r"
      "fst (extract_symmetry self a r N w2) = Inr (Some factor1, Some factor2)"
      "factor1 * factor2 \<noteq> N" for r factor1 factor2
    using qsf that by (cases "extract_symmetry self a r N w2") auto
  from 1 2 3 4 5 show ?thesis by blast
qed

theorem attempt_failures_absent_witness:
  "(3::int) \<le> 12 \<and> coprime (5::int) 12 \<and>
   fst (randint 2 (12 - 1) \<lparr>rng = sconst 3, stdout = [], calls = []\<rparr>) = Inr 5 \<and>
   fst (quantum_period_estimate qsf_algorithm 5 12 \<lparr>rng = sconst 3, stdout = [], calls = []\<rparr>) =
     Inr (Some 2) \<and>
   fst (extract_symmetry qsf_algorithm 5 2 12 \<lparr>rng = sconst 3, stdout = [], calls = []\<rparr>) =
     Inr (Some 4, Some 6) \<and>
   fst (quantum_symmetry_factor qsf_algorithm 12 \<lparr>rng = sconst 3, stdout = [], calls = []\<rparr>) =
     Inr None \<and>
   coprime (2::int) 7 \<and>
   fst (quantum_period_estimate qsf_algorithm 2 7 \<lparr>rng = sconst 0, stdout = [], calls = []\<rparr>) =
     Inr (Some 3) \<and>
   fst (quantum_symmetry_factor qsf_algorithm 7 \<lparr>rng = sconst 0, stdout = [], calls = []\<rparr>) =
     Inr None \<and>
   coprime (14::int) 15 \<and>
   fst (quantum_period_estimate qsf_algorithm 14 15 \<lparr>rng = sconst 12, stdout = [], calls = []\<rparr>) =
     Inr (Some 2) \<and>
   fst (extract_symmetry qsf_algorithm 14 2 15 \<lparr>rng = sconst 12, stdout = [], calls = []\<rparr>) =
     Inr (None, None) \<and>
   fst (quantum_symmetry_factor qsf_algorithm 15 \<lparr>rng = sconst 12, stdout = [], calls = []\<rparr>) =
     Inr None"
proof -
  let ?w = "\<lparr>rng = sconst 3, stdout = [], calls = []\<rparr>"
  let ?w2 = "\<lparr>rng = sconst 3, stdout = [Running_circuit 50, Period_found 2],
    calls = [Order_finder 5 12]\<rparr>"
  have s: "randint 2 (12 - 1) ?w = (Inr 5, ?w)" by (simp add: randint_def)
  have c: "coprime (5::int) 12"
    using gcd_qsf_gcd [of 12 5] by (simp add: gcd_qsf.simps coprime_iff_gcd_eq_1)
  have q: "quantum_period_estimate qsf_algorithm 5 12 ?w = (Inr (Some 2), ?w2)"
    by (simp add: quantum_period_estimate_def run_quantum_circuit_def
        simulate_period_finding_def period_loop.simps py_pow_def print_def enter_def
        qsf_algorithm_def qsf_def)
  have x: "fst (extract_symmetry qsf_algorithm 5 2 12 v) = Inr (Some 4, Some 6)" for v
    by (simp add: extract_symmetry_def py_pow_def gcd_qsf.simps Let_def)
  have mismatch: "fst (quantum_symmetry_factor qsf_algorithm 12 ?w) = Inr None"
    using attempt_failures_absent [OF _ s c q] x [of ?w2] by simp
  let ?u = "\<lparr>rng = sconst 0, stdout = [], calls = []\<rparr>"
  let ?u2 = "\<lparr>rng = sconst 0, stdout = [Running_circuit 50, Period_found 3],
    calls = [Order_finder 2 7]\<rparr>"
  have s': "randint 2 (7 - 1) ?u = (Inr 2, ?u)" by (simp add: randint_def)
  have c': "coprime (2::int) 7"
    using gcd_qsf_gcd [of 7 2] by (simp add: gcd_qsf.simps coprime_iff_gcd_eq_1)
  have q': "quantum_period_estimate qsf_algorithm 2 7 ?u = (Inr (Some 3), ?u2)"
    by (simp add: quantum_period_estimate_def run_quantum_circuit_def
        simulate_period_finding_def period_loop.simps py_pow_def print_def enter_def
        qsf_algorithm_def qsf_def)
  have odd_order: "fst (quantum_symmetry_factor qsf_algorithm 7 ?u) = Inr None"
    using attempt_failures_absent [OF _ s' c' q'] by simp
  let ?v = "\<lparr>rng = sconst 12, stdout = [], calls = []\<rparr>"
  let ?v2 = "\<lparr>rng = sconst 12, stdout = [Running_circuit 50, Period_found 2],
    calls = [Order_finder 14 15]\<rparr>"
  have s'': "randint 2 (15 - 1) ?v = (Inr 14, ?v)" by (simp add: randint_def)
  have c'': "coprime (14::int) 15"
    using gcd_qsf_gcd [of 15 14] by (simp add: gcd_qsf.simps coprime_iff_gcd_eq_1)
  have q'': "quantum_period_estimate qsf_algorithm 14 15 ?v = (Inr (Some 2), ?v2)"
    by (simp add: quantum_period_estimate_def run_quantum_circuit_def
        simulate_period_finding_def period_loop.simps py_pow_def print_def enter_def
        qsf_algorithm_def qsf_def)
  have x'': "fst (extract_symmetry qsf_algorithm 14 2 15 v) = Inr (None, None)" for v
    by (simp add: extract_symmetry_def py_pow_def Let_def)
  have degenerate: "fst (quantum_symmetry_factor qsf_algorithm 15 ?v) = Inr None"
    using attempt_failures_absent [OF _ s'' c'' q''] x'' [of ?v2] by simp
  from s c q x [of ?w] mismatch s' c' q' odd_order s'' c'' q'' x'' [of ?v] degenerate
  show ?thesis by simp
qed

text \<open>
  C10. In every execution of \<^verbatim>\<open>quantum_symmetry_factor\<close> the invocations it adds to the
  history are such that each invocation of \<^verbatim>\<open>extract_symmetry\<close> has an even order \<open>r\<close>:
  the positive order that the order finder returned for the sampled base and \<open>N\<close>. The
  guard on \<^verbatim>\<open>None\<close> and on odd \<open>r\<close> keeps every other order from the extractor.
\<close>

theorem extractor_called_with_even_order:
  "\<exists>cs. calls (snd (quantum_symmetry_factor self N w)) = calls w @ cs \<and>
     (\<forall>b r M. Factor_extractor b r M \<in> set cs \<longrightarrow>
        even r \<and> 0 < r \<and> M = N \<and> fst (randint 2 (N - 1) w) = Inr b \<and>
        fst (simulate_period_finding (quantum_computer self) b N w) = Inr (Some r))"
proof -
  let ?P = "\<lambda>cs. \<forall>b r M. Factor_extractor b r M \<in> set cs \<longrightarrow>
        even r \<and> 0 < r \<and> M = N \<and> fst (randint 2 (N - 1) w) = Inr b \<and>
        fst (simulate_period_finding (quantum_computer self) b N w) = Inr (Some r)"
  let ?goal = "\<exists>cs. calls (snd (quantum_symmetry_factor self N w)) = calls w @ cs \<and> ?P cs"
  have none: ?goal if "calls (snd (quantum_symmetry_factor self N w)) = calls w"
    using that by (intro exI [of _ "[]"]) simp
  obtain s w1 where s: "randint 2 (N - 1) w = (s, w1)"
    by (cases "randint 2 (N - 1) w")
  have w1: "calls w1 = calls w"
    using s by (auto simp: randint_def split: if_splits)
  show ?thesis
  proof (cases s)
    case (Inl e)
    with s w1 show ?thesis
      by (intro none) (simp add: quantum_symmetry_factor_def)
  next
    case (Inr a)
    obtain res w2 where q: "quantum_period_estimate self a N w1 = (res, w2)"
      by (cases "quantum_period_estimate self a N w1")
    note w2 = quantum_period_estimate_frame(1) [OF q]
    have finder: ?goal
      if "calls (snd (quantum_symmetry_factor self N w)) = calls w @ [Order_finder a N]"
      using that by (intro exI [of _ "[Order_finder a N]"]) simp
    show ?thesis
    proof (cases "gcd_qsf a N > 1")
      case True
      with s Inr w1 show ?thesis
        by (intro none) (simp add: quantum_symmetry_factor_def Let_def)
    next
      case False
      show ?thesis
      proof (cases res)
        case (Inl e)
        with s Inr False q w1 w2 show ?thesis
          by (intro finder) (simp add: quantum_symmetry_factor_def Let_def)
      next
        case found: (Inr ro)
        show ?thesis
        proof (cases ro)
          case None
          with s Inr False q found w1 w2 show ?thesis
            by (intro finder) (simp add: quantum_symmetry_factor_def Let_def print_def)
        next
          case (Some r)
          show ?thesis
          proof (cases "r mod 2 \<noteq> 0")
            case True
            with s Inr False q found Some w1 w2 show ?thesis
              by (intro finder) (simp add: quantum_symmetry_factor_def Let_def print_def)
          next
            case even: False
            obtain x w3 where e: "extract_symmetry self a r N w2 = (x, w3)"
              by (cases "extract_symmetry self a r N w2")
            have w3: "calls w3 = calls w @ [Order_finder a N, Factor_extractor a r N]"
              using extract_symmetry_snd [of self a r N w2] e w1 w2 by (simp add: enter_def)
            have "calls (snd (quantum_symmetry_factor self N w)) = calls w3"
              using s Inr False q found Some even e
              by (simp add: quantum_symmetry_factor_def Let_def print_def
                  split: sum.split option.split prod.split)
            then have c: "calls (snd (quantum_symmetry_factor self N w)) =
                calls w @ [Order_finder a N, Factor_extractor a r N]"
              using w3 by simp
            from quantum_period_estimate_order [OF q [unfolded found Some]] have r: "0 < r"
              by simp
            have "fst (simulate_period_finding (quantum_computer self) a N w) = res"
              using quantum_period_estimate_fst [of self a N w1] q
              by (simp add: simulate_period_finding_def)
            with found Some have f:
              "fst (simulate_period_finding (quantum_computer self) a N w) = Inr (Some r)"
              by simp
            from even have "even r" by presburger
            with c r f s Inr show ?thesis
              by (intro exI [of _ "[Order_finder a N, Factor_extractor a r N]"]) simp
          qed
        qed
      qed
    qed
  qed
qed

theorem extractor_called_with_even_order_witness:
  "calls (snd (quantum_symmetry_factor qsf_algorithm 15 \<lparr>rng = sconst 5, stdout = [], calls = []\<rparr>)) =
     [Order_finder 7 15, Factor_extractor 7 4 15] \<and> even (4::int)"
proof -
  let ?w = "\<lparr>rng = sconst 5, stdout = [], calls = []\<rparr>"
  have c: "calls (snd (quantum_symmetry_factor qsf_algorithm 15 ?w)) =
      [Order_finder 7 15, Factor_extractor 7 4 15]"
    by (simp add: quantum_symmetry_factor_def randint_def quantum_period_estimate_def
        run_quantum_circuit_def simulate_period_finding_def period_loop.simps py_pow_def
        print_def enter_def extract_symmetry_def gcd_qsf.simps Let_def)
  from extractor_called_with_even_order [of qsf_algorithm 15 ?w] c
  have "even (4::int)" by auto
  with c show ?thesis by simp
qed

section \<open>Determinism\<close>

lemma simulate_period_finding_stdout:
  "stdout (snd (simulate_period_finding self a N w)) =
     stdout w @ (case fst (period_loop a N 1 v) of Inr (Some r) \<Rightarrow> [Period_found r] | _ \<Rightarrow> [])"
proof -
  let ?w = "enter (Order_finder a N) w"
  have "fst (period_loop a N 1 ?w) = fst (period_loop a N 1 v)"
    by (rule period_loop_world)
  then show ?thesis
    unfolding simulate_period_finding_def period_loop_snd [of a N 1 ?w]
    by (simp add: print_def enter_def split: sum.split option.split)
qed

text \<open>
  C7. The order finder and the factor extractor are functions of their arguments: two
  runs of \<^verbatim>\<open>simulate_period_finding\<close> on the same \<open>(a, N)\<close>, or of \<^verbatim>\<open>extract_symmetry\<close> on
  the same \<open>(a, r, N)\<close>, return the same result, whatever the object, the generator and
  the output so far; neither draws from the generator, the order finder prints the same
  lines in every run and the extractor prints nothing. The result of
  \<^verbatim>\<open>quantum_symmetry_factor\<close> depends on the world only through the sampled base, and it
  does depend on it: two generators give different results for \<open>N = 15\<close>.
\<close>

theorem components_deterministic:
  "fst (simulate_period_finding self a N w) = fst (simulate_period_finding self' a N w') \<and>
   rng (snd (simulate_period_finding self a N w)) = rng w \<and>
   (\<exists>out. \<forall>s v. stdout (snd (simulate_period_finding s a N v)) = stdout v @ out) \<and>
   fst (extract_symmetry me a r N w) = fst (extract_symmetry me' a r N w') \<and>
   rng (snd (extract_symmetry me a r N w)) = rng w \<and>
   stdout (snd (extract_symmetry me a r N w)) = stdout w \<and>
   (fst (randint 2 (N - 1) w) = fst (randint 2 (N - 1) w') \<longrightarrow>
      fst (quantum_symmetry_factor me N w) = fst (quantum_symmetry_factor me' N w')) \<and>
   (\<exists>v v'. fst (quantum_symmetry_factor qsf_algorithm 15 v) \<noteq>
      fst (quantum_symmetry_factor qsf_algorithm 15 v'))"
proof -
  have 1: "fst (simulate_period_finding self a N w) = fst (simulate_period_finding self' a N w')"
    unfolding simulate_period_finding_def by (rule period_loop_world)
  have 2: "rng (snd (simulate_period_finding self a N w)) = rng w"
    by (simp add: simulate_period_finding_def period_loop_frame enter_def)
  have 3: "\<exists>out. \<forall>s v. stdout (snd (simulate_period_finding s a N v)) = stdout v @ out"
    using simulate_period_finding_stdout [of _ a N _ w] by blast
  have 4: "fst (extract_symmetry me a r N w) = fst (extract_symmetry me' a r N w')"
    by (rule extract_symmetry_world)
  have 5: "rng (snd (extract_symmetry me a r N w)) = rng w"
    and 6: "stdout (snd (extract_symmetry me a r N w)) = stdout w"
    by (simp_all add: extract_symmetry_snd enter_def)
  have 7: "fst (quantum_symmetry_factor me N w) = fst (quantum_symmetry_factor me' N w')"
    if "fst (randint 2 (N - 1) w) = fst (randint 2 (N - 1) w')"
    unfolding quantum_symmetry_factor_fst [where self = me and w = w and v = w and self' = me]
      quantum_symmetry_factor_fst [where self = me' and w = w' and v = w and self' = me] that ..
  let ?v = "\<lparr>rng = sconst 5, stdout = [], calls = []\<rparr>"
  let ?v' = "\<lparr>rng = sconst 3, stdout = [], calls = []\<rparr>"
  have "fst (quantum_symmetry_factor qsf_algorithm 15 ?v) = Inr (Some (3, 5))"
    by (simp add: quantum_symmetry_factor_def randint_def quantum_period_estimate_def
        run_quantum_circuit_def simulate_period_finding_def period_loop.simps py_pow_def
        print_def enter_def extract_symmetry_def gcd_qsf.simps Let_def)
  moreover have "fst (quantum_symmetry_factor qsf_algorithm 15 ?v') = Inr (Some (5, 3))"
    by (simp add: quantum_symmetry_factor_def randint_def gcd_qsf.simps Let_def)
  ultimately have 8: "\<exists>v v'. fst (quantum_symmetry_factor qsf_algorithm 15 v) \<noteq>
      fst (quantum_symmetry_factor qsf_algorithm 15 v')"
    by (intro exI [of _ ?v] exI [of _ ?v']) simp
  from 1 2 3 4 5 6 7 8 show ?thesis by blast
qed

theorem components_deterministic_witness:
  "fst (randint 2 (15 - 1) \<lparr>rng = sconst 5, stdout = [], calls = []\<rparr>) =
     fst (randint 2 (15 - 1) \<lparr>rng = sconst 18, stdout = [Failed_period], calls = []\<rparr>) \<and>
   fst (quantum_symmetry_factor qsf_algorithm 15 \<lparr>rng = sconst 5, stdout = [], calls = []\<rparr>) =
     fst (quantum_symmetry_factor \<lparr>quantum_computer = \<lparr>qubit_count = 3\<rparr>\<rparr> 15
            \<lparr>rng = sconst 18, stdout = [Failed_period], calls = []\<rparr>) \<and>
   fst (simulate_period_finding qsf 7 15 \<lparr>rng = sconst 5, stdout = [], calls = []\<rparr>) =
     fst (simulate_period_finding \<lparr>qubit_count = 3\<rparr> 7 15
            \<lparr>rng = sconst 18, stdout = [Failed_period], calls = []\<rparr>)"
proof -
  let ?w = "\<lparr>rng = sconst 5, stdout = [], calls = []\<rparr>"
  let ?w' = "\<lparr>rng = sconst 18, stdout = [Failed_period], calls = []\<rparr>"
  have s: "fst (randint 2 (15 - 1) ?w) = fst (randint 2 (15 - 1) ?w')"
    by (simp add: randint_def)
  from components_deterministic
    [of qsf 7 15 ?w "\<lparr>qubit_count = 3\<rparr>" ?w' qsf_algorithm 4
      "\<lparr>quantum_computer = \<lparr>qubit_count = 3\<rparr>\<rparr>"] s
  show ?thesis by blast
qed

section \<open>The method gcd\<close>

text \<open>
  C8. The Euclidean loop of the method \<^verbatim>\<open>gcd\<close> terminates on every pair of
  non-negative integers: the pair is in the accessible part of the loop's call relation,
  and the remainder that replaces \<open>b\<close> is non-negative and smaller than \<open>b\<close>. Its result
  is the greatest common divisor, the value of \<^verbatim>\<open>math.gcd\<close>.
\<close>

theorem gcd_qsf_correct:
  "0 \<le> a \<Longrightarrow> 0 \<le> b \<Longrightarrow>
     gcd_qsf_dom (a, b) \<and> (b \<noteq> 0 \<longrightarrow> 0 \<le> a mod b \<and> a mod b < b) \<and>
     gcd_qsf a b = gcd a b \<and> gcd_qsf a b = math_gcd a b"
  by (simp add: gcd_qsf_terminates gcd_qsf_gcd math_gcd_def)

theorem gcd_qsf_correct_witness:
  "gcd_qsf_dom (12, 18) \<and> gcd_qsf 12 18 = 6 \<and> math_gcd 12 18 = 6 \<and> (12::int) mod 18 < 18"
  using gcd_qsf_correct [of 12 18] by (simp add: gcd_qsf.simps)

end
